theory Spec2Isabelle
  imports Main "HOL-Library.Word" "HOL-Library.Sublist"
begin

section \<open>The synchronization task of cluster/sync/task.go\<close>

text \<open>
  A shallow embedding of \<^verbatim>\<open>task.Run\<close>, \<^verbatim>\<open>task.SetSendFunc\<close>, \<^verbatim>\<open>task.sendSync\<close> and
  \<^verbatim>\<open>task.validateHeaderList\<close>. The task's collaborators (the chain, the peer behind the
  fetchers, the progress sink) are Go closures and interface values: they are parameters of
  the model, functions on an external world \<open>'w\<close> that they may read and change. Every call
  that the task makes to a collaborator is appended to a trace, so that what \<^verbatim>\<open>Run\<close> did
  can be stated. Logging is left out. The headers and blocks inside a list, the target
  header of the task and the head of the chain are taken to be values, not nil.
\<close>

subsection \<open>Data\<close>

text \<open>\<^verbatim>\<open>common.Hash\<close> is a 32-byte array.\<close>

type_synonym hash = "256 word"

text \<open>
  \<^verbatim>\<open>types.IHeader\<close>: the three methods that the task calls, \<^verbatim>\<open>NumberU64()\<close>, \<^verbatim>\<open>Hash()\<close>
  and \<^verbatim>\<open>GetParentHash()\<close>. An interface value that \<^verbatim>\<open>qkcom.IsNil\<close> tests is an
  \<open>iheader option\<close>.
\<close>

record iheader =
  NumberU64 :: "64 word"
  Hash :: hash
  GetParentHash :: hash

text \<open>
  \<^verbatim>\<open>types.IBlock\<close>: \<^verbatim>\<open>NumberU64()\<close> and \<^verbatim>\<open>IHeader()\<close>. The loop of \<^verbatim>\<open>Run\<close> tests the header
  it took from a block with \<^verbatim>\<open>qkcom.IsNil\<close>, so \<^verbatim>\<open>IHeader()\<close> is an option here.
\<close>

record iblock =
  BlockNumberU64 :: "64 word"
  IHeader :: "iheader option"

record Progress =
  CurrentBlock :: "64 word"
  HighestBlock :: "64 word"

record SyncingResult =
  Syncing :: bool
  Status :: Progress

text \<open>
  The errors that \<^verbatim>\<open>task.go\<close> creates itself (\<^verbatim>\<open>errors.New\<close>, \<^verbatim>\<open>fmt.Errorf\<close>), and the
  errors that a collaborator returned.
\<close>

datatype error =
    ErrDescendingOrder \<comment> \<open>"should have descending order with step 1"\<close>
  | ErrNotLinked \<comment> \<open>"should have blocks correctly linked"\<close>
  | ErrUnmatchedLength1 int nat \<comment> \<open>"unmatched block length-1, expect: %d, actual: %d"\<close>
  | ErrUnmatchedLength2 nat nat hash \<comment> \<open>"unmatched block length-2, expect: %d, actual: %d hash:%v"\<close>
  | ErrExternal string

text \<open>
  The protocol violations of the error taxonomy: a header batch that is not contiguous or
  not linked, and a block response of the wrong size.
\<close>

fun isProtocolViolation :: "error \<Rightarrow> bool" where
  "isProtocolViolation ErrDescendingOrder = True"
| "isProtocolViolation ErrNotLinked = True"
| "isProtocolViolation (ErrUnmatchedLength1 _ _) = True"
| "isProtocolViolation (ErrUnmatchedLength2 _ _ _) = True"
| "isProtocolViolation (ErrExternal _) = False"

text \<open>How a call of \<^verbatim>\<open>Run\<close> ends: it returns its \<^verbatim>\<open>error\<close> (nil is \<open>None\<close>), or it panics.\<close>

datatype outcome = Ret "error option" | Panic

text \<open>The calls that the task makes to its collaborators.\<close>

datatype call =
    CallSend SyncingResult
  | CallFindAncestor
  | CallGetHeaders iheader
  | CallGetBlocks "hash list"
  | CallSyncBlock iblock
  | CallAddBlock iblock
  | CallValidateSeal iheader bool

record 'w state =
  world :: 'w
  trace :: "call list"

text \<open>
  The \<^verbatim>\<open>blockchain\<close> interface: \<^verbatim>\<open>CurrentHeader()\<close>, \<^verbatim>\<open>AddBlock(blk)\<close> and
  \<^verbatim>\<open>Validator().ValidateSeal(h, flag)\<close>. \<^verbatim>\<open>CurrentHeader\<close> is a getter: it reads the world.
\<close>

record 'w blockchain =
  CurrentHeader :: "'w \<Rightarrow> iheader"
  AddBlock :: "iblock \<Rightarrow> 'w \<Rightarrow> error option \<times> 'w"
  ValidateSeal :: "iheader \<Rightarrow> bool \<Rightarrow> 'w \<Rightarrow> error option \<times> 'w"

text \<open>
  \<^verbatim>\<open>type task struct\<close>. A Go function that returns \<^verbatim>\<open>(value, error)\<close> returns a pair here;
  a function field that may be nil (\<^verbatim>\<open>send\<close>, \<^verbatim>\<open>syncBlock\<close>) is an option. The chain that
  \<^verbatim>\<open>findAncestor\<close>, \<^verbatim>\<open>syncBlock\<close> and \<^verbatim>\<open>needSkip\<close> receive is part of the world. The skip
  predicate only reads the world.
\<close>

record 'w task =
  name :: string
  maxSyncStaleness :: "64 word"
  batchSize :: int
  header :: iheader
  send :: "(SyncingResult \<Rightarrow> 'w \<Rightarrow> int \<times> 'w) option"
  findAncestor :: "'w \<Rightarrow> (iheader option \<times> error option) \<times> 'w"
  getHeaders :: "iheader \<Rightarrow> 'w \<Rightarrow> (iheader list \<times> error option) \<times> 'w"
  getBlocks :: "hash list \<Rightarrow> 'w \<Rightarrow> (iblock list \<times> error option) \<times> 'w"
  syncBlock :: "(iblock \<Rightarrow> 'w \<Rightarrow> error option \<times> 'w) option"
  needSkip :: "'w \<Rightarrow> bool"

subsection \<open>Operations\<close>

text \<open>One call to a collaborator: the world changes as the collaborator says, the trace grows.\<close>

definition invoke :: "call \<Rightarrow> ('w \<Rightarrow> 'a \<times> 'w) \<Rightarrow> 'w state \<Rightarrow> 'a \<times> 'w state" where
  "invoke c f s =
     (case f (world s) of (r, w) \<Rightarrow> (r, \<lparr>world = w, trace = trace s @ [c]\<rparr>))"

text \<open>\<^verbatim>\<open>SetSendFunc\<close> (lines 141-145). The argument is a Go function value, which may be nil.\<close>

definition SetSendFunc ::
  "'w task \<Rightarrow> (SyncingResult \<Rightarrow> 'w \<Rightarrow> int \<times> 'w) option \<Rightarrow> 'w task" where
  "SetSendFunc t send' =
     (if prefix ''shard-'' (name t) \<and> send t = None then t\<lparr>send := send'\<rparr> else t)"

text \<open>\<^verbatim>\<open>sendSync\<close> (lines 147-157). The count that the sink returns is dropped.\<close>

definition sendSync :: "'w task \<Rightarrow> bool \<Rightarrow> 64 word \<Rightarrow> 64 word \<Rightarrow> 'w state \<Rightarrow> 'w state" where
  "sendSync t syncing cur best s =
     (case send t of
        None \<Rightarrow> s
      | Some f \<Rightarrow>
          (let v = \<lparr>Syncing = syncing, Status = \<lparr>CurrentBlock = cur, HighestBlock = best\<rparr>\<rparr>
           in snd (invoke (CallSend v) (f v) s)))"

text \<open>
  \<^verbatim>\<open>validateHeaderList\<close> (lines 159-176): the loop over the headers, with the loop variable
  \<^verbatim>\<open>prev\<close> as an argument; \<^verbatim>\<open>prev\<close> starts as the nil interface value.
\<close>

fun validateHeaders ::
  "'w blockchain \<Rightarrow> iheader option \<Rightarrow> iheader list \<Rightarrow> 'w state \<Rightarrow> error option \<times> 'w state" where
  "validateHeaders bc prev [] s = (None, s)"
| "validateHeaders bc prev (h # hs) s =
     (if (case prev of None \<Rightarrow> False | Some p \<Rightarrow> NumberU64 h \<noteq> NumberU64 p + 1)
      then (Some ErrDescendingOrder, s)
      else if (case prev of None \<Rightarrow> False | Some p \<Rightarrow> Hash p \<noteq> GetParentHash h)
      then (Some ErrNotLinked, s)
      else
        (case invoke (CallValidateSeal h False) (ValidateSeal bc h False) s of
           (Some e, s1) \<Rightarrow> (Some e, s1)
         | (None, s1) \<Rightarrow> validateHeaders bc (Some h) hs s1))"

definition validateHeaderList ::
  "'w blockchain \<Rightarrow> iheader list \<Rightarrow> 'w state \<Rightarrow> error option \<times> 'w state" where
  "validateHeaderList bc headers s = validateHeaders bc None headers s"

text \<open>
  The loop over the blocks of one response (lines 114-131). \<open>blocks\<close> is the whole response
  (for \<^verbatim>\<open>blocks[len(blocks)-1]\<close>), \<open>counter\<close> the local counter, which line 114 sets to 0
  before the loop. \<open>Inl e\<close>: \<^verbatim>\<open>Run\<close> returns \<open>e\<close>; \<open>Inr a\<close>: the loop is over and \<^verbatim>\<open>ancestor\<close>
  is \<open>a\<close>.
\<close>

fun commitBlocks ::
  "'w task \<Rightarrow> 'w blockchain \<Rightarrow> iblock list \<Rightarrow> nat \<Rightarrow> iheader option \<Rightarrow> iblock list \<Rightarrow>
   'w state \<Rightarrow> (error + iheader option) \<times> 'w state" where
  "commitBlocks t bc blocks counter ancestor [] s = (Inr ancestor, s)"
| "commitBlocks t bc blocks counter ancestor (blk # rest) s =
     (case (case syncBlock t of
              None \<Rightarrow> (None, s)
            | Some f \<Rightarrow> invoke (CallSyncBlock blk) (f blk) s) of
        (Some e, s1) \<Rightarrow> (Inl e, s1)
      | (None, s1) \<Rightarrow>
          (case invoke (CallAddBlock blk) (AddBlock bc blk) s1 of
             (Some e, s2) \<Rightarrow> (Inl e, s2)
           | (None, s2) \<Rightarrow>
               (let counter' = counter + 1;
                    s3 = (if counter' mod 100 = 0
                          then sendSync t True (BlockNumberU64 blk)
                                 (BlockNumberU64 (last blocks)) s2
                          else s2)
                in commitBlocks t bc blocks counter' (IHeader blk) rest s3)))"

text \<open>
  One block fetch (lines 87-108), for a hash list that is not empty. \<open>Inl out\<close>: \<^verbatim>\<open>Run\<close>
  ends with \<open>out\<close>; \<open>Inr (blocks, hashlist')\<close>: the response and the hashes that are left.
  The slice expression \<^verbatim>\<open>hashlist[:t.batchSize]\<close> panics when \<^verbatim>\<open>t.batchSize\<close> is negative.
  Line 110 tests an \<^verbatim>\<open>err\<close> that is nil there.
\<close>

definition fetchChunk ::
  "'w task \<Rightarrow> hash list \<Rightarrow> 'w state \<Rightarrow> (outcome + iblock list \<times> hash list) \<times> 'w state" where
  "fetchChunk t hashlist s =
     (if int (length hashlist) > batchSize t then
        (if batchSize t < 0 then (Inl Panic, s)
         else
           (case invoke (CallGetBlocks (take (nat (batchSize t)) hashlist))
                   (getBlocks t (take (nat (batchSize t)) hashlist)) s of
              ((blocks, Some e), s1) \<Rightarrow> (Inl (Ret (Some e)), s1)
            | ((blocks, None), s1) \<Rightarrow>
                (if int (length blocks) \<noteq> batchSize t
                 then (Inl (Ret (Some (ErrUnmatchedLength1 (batchSize t) (length blocks)))), s1)
                 else (Inr (blocks, drop (nat (batchSize t)) hashlist), s1))))
      else
        (case invoke (CallGetBlocks hashlist) (getBlocks t hashlist) s of
           ((blocks, Some e), s1) \<Rightarrow> (Inl (Ret (Some e)), s1)
         | ((blocks, None), s1) \<Rightarrow>
             (if length blocks \<noteq> length hashlist
              then (Inl (Ret (Some (ErrUnmatchedLength2 (length hashlist) (length blocks)
                                      (hd hashlist)))), s1)
              else (Inr (blocks, []), s1))))"

text \<open>
  The inner loop \<^verbatim>\<open>for len(hashlist) > 0\<close> (lines 86-132). With \<^verbatim>\<open>batchSize = 0\<close> the hash
  list never shrinks, so the loop has fuel: one unit for each iteration, \<open>None\<close> when it
  runs out.
\<close>

fun innerLoop ::
  "nat \<Rightarrow> 'w task \<Rightarrow> 'w blockchain \<Rightarrow> hash list \<Rightarrow> iheader option \<Rightarrow> 'w state \<Rightarrow>
   ((outcome + iheader option) \<times> 'w state) option" where
  "innerLoop n t bc [] ancestor s = Some (Inr ancestor, s)"
| "innerLoop 0 t bc (h # hs) ancestor s = None"
| "innerLoop (Suc n) t bc (h # hs) ancestor s =
     (case fetchChunk t (h # hs) s of
        (Inl out, s1) \<Rightarrow> Some (Inl out, s1)
      | (Inr (blocks, hashlist'), s1) \<Rightarrow>
          (case commitBlocks t bc blocks 0 ancestor blocks s1 of
             (Inl e, s2) \<Rightarrow> Some (Inl (Ret (Some e)), s2)
           | (Inr ancestor', s2) \<Rightarrow> innerLoop n t bc hashlist' ancestor' s2))"

text \<open>
  The outer loop \<^verbatim>\<open>for !qkcom.IsNil(ancestor)\<close> (lines 66-133). A peer that always has
  more headers keeps it running, so it has fuel too. \<open>Inl out\<close>: \<^verbatim>\<open>Run\<close> ends with \<open>out\<close>
  inside the loop; \<open>Inr ()\<close>: the loop condition ended the loop.
\<close>

fun outerLoop ::
  "nat \<Rightarrow> 'w task \<Rightarrow> 'w blockchain \<Rightarrow> iheader option \<Rightarrow> 'w state \<Rightarrow>
   ((outcome + unit) \<times> 'w state) option" where
  "outerLoop n t bc None s = Some (Inr (), s)"
| "outerLoop 0 t bc (Some a) s = None"
| "outerLoop (Suc n) t bc (Some a) s =
     (case invoke (CallGetHeaders a) (getHeaders t a) s of
        ((headers, Some e), s1) \<Rightarrow> Some (Inl (Ret (Some e)), s1)
      | ((headers, None), s1) \<Rightarrow>
          (if length headers = 0 then Some (Inl (Ret None), s1)
           else
             (case validateHeaderList bc headers s1 of
                (Some e, s2) \<Rightarrow> Some (Inl (Ret (Some e)), s2)
              | (None, s2) \<Rightarrow>
                  (case innerLoop n t bc (map Hash headers) (Some a) s2 of
                     None \<Rightarrow> None
                   | Some (Inl out, s3) \<Rightarrow> Some (Inl out, s3)
                   | Some (Inr ancestor', s3) \<Rightarrow> outerLoop n t bc ancestor' s3))))"

text \<open>
  \<^verbatim>\<open>Run\<close> (lines 46-139). \<open>None\<close>: the fuel did not suffice; \<open>Some (out, s)\<close>: \<^verbatim>\<open>Run\<close> ended
  with \<open>out\<close> in the state \<open>s\<close>.
\<close>

definition Run ::
  "'w task \<Rightarrow> 'w blockchain \<Rightarrow> nat \<Rightarrow> 'w state \<Rightarrow> (outcome \<times> 'w state) option" where
  "Run t bc fuel s =
     (if needSkip t (world s) then Some (Ret None, s)
      else
        (let s1 = sendSync t False (NumberU64 (CurrentHeader bc (world s)))
                    (NumberU64 (header t)) s
         in case invoke CallFindAncestor (findAncestor t) s1 of
              ((ancestor, Some e), s2) \<Rightarrow> Some (Ret (Some e), s2)
            | ((None, None), s2) \<Rightarrow> Some (Ret None, s2)
            | ((Some a, None), s2) \<Rightarrow>
                (if NumberU64 (CurrentHeader bc (world s2)) - NumberU64 a > maxSyncStaleness t
                 then Some (Ret None, s2)
                 else
                   (case outerLoop fuel t bc (Some a) s2 of
                      None \<Rightarrow> None
                    | Some (Inl out, s3) \<Rightarrow> Some (out, s3)
                    | Some (Inr u, s3) \<Rightarrow>
                        Some (Ret None,
                              sendSync t False (NumberU64 (CurrentHeader bc (world s3)))
                                (NumberU64 (header t)) s3)))))"

subsection \<open>Observing the trace\<close>

fun isSend :: "call \<Rightarrow> bool" where
  "isSend (CallSend v) = True"
| "isSend c = False"

fun isAddBlock :: "call \<Rightarrow> bool" where
  "isAddBlock (CallAddBlock b) = True"
| "isAddBlock c = False"


subsection \<open>A sample chain and a sample peer\<close>

text \<open>
  The header and the block at height \<open>n\<close> of a sample chain: the hash of a header is its
  height, its parent hash the height below.
\<close>

definition sampleHeader :: "64 word \<Rightarrow> iheader" where
  "sampleHeader n = \<lparr>NumberU64 = n, Hash = ucast n, GetParentHash = ucast (n - 1)\<rparr>"

definition sampleBlock :: "64 word \<Rightarrow> iblock" where
  "sampleBlock n = \<lparr>BlockNumberU64 = n, IHeader = Some (sampleHeader n)\<rparr>"

text \<open>The \<open>k\<close> headers of the sample chain from height \<open>n\<close> on.\<close>

fun sampleHeaders :: "64 word \<Rightarrow> nat \<Rightarrow> iheader list" where
  "sampleHeaders n 0 = []"
| "sampleHeaders n (Suc k) = sampleHeader n # sampleHeaders (n + 1) k"

text \<open>
  A chain whose world is its head: \<^verbatim>\<open>AddBlock\<close> moves the head to the block's header, the
  seal validator rejects the headers at the heights in \<open>bad\<close>.
\<close>

definition sampleChain :: "64 word list \<Rightarrow> iheader blockchain" where
  "sampleChain bad =
     \<lparr>CurrentHeader = (\<lambda>w. w),
      AddBlock = (\<lambda>b w. (None, case IHeader b of None \<Rightarrow> w | Some h \<Rightarrow> h)),
      ValidateSeal = (\<lambda>h enforce w.
        (if NumberU64 h \<in> set bad then Some (ErrExternal ''invalid seal'') else None, w))\<rparr>"

text \<open>
  A shard task with a sink and the target height 200. The ancestor locator returns the
  header \<open>anc\<close>; the peer answers the header request for \<open>anc\<close> with the headers \<open>hs\<close>
  and every other one with the empty batch, and it delivers the blocks of the sample chain.
\<close>

definition sampleTask :: "int \<Rightarrow> iheader \<Rightarrow> iheader list \<Rightarrow> iheader task" where
  "sampleTask bs anc hs =
     \<lparr>name = ''shard-0'',
      maxSyncStaleness = 1000,
      batchSize = bs,
      header = sampleHeader 200,
      send = Some (\<lambda>v w. (1, w)),
      findAncestor = (\<lambda>w. ((Some anc, None), w)),
      getHeaders = (\<lambda>a w. ((if a = anc then hs else [], None), w)),
      getBlocks = (\<lambda>hashes w. ((map (\<lambda>h. sampleBlock (ucast h)) hashes, None), w)),
      syncBlock = None,
      needSkip = (\<lambda>w. False)\<rparr>"

definition sampleState :: "64 word \<Rightarrow> iheader state" where
  "sampleState n = \<lparr>world = sampleHeader n, trace = []\<rparr>"

section \<open>Properties\<close>

lemmas sample_defs = sampleHeader_def sampleBlock_def sampleChain_def sampleTask_def sampleState_def

subsection \<open>Calls and the trace\<close>

lemma successively_nth:
  "successively P xs \<longleftrightarrow> (\<forall>i. Suc i < length xs \<longrightarrow> P (xs ! i) (xs ! Suc i))"
proof (induction P xs rule: successively.induct)
  case (3 P x y xs)
  show ?case
  proof
    assume a: "successively P (x # y # xs)"
    show "\<forall>i. Suc i < length (x # y # xs) \<longrightarrow> P ((x # y # xs) ! i) ((x # y # xs) ! Suc i)"
    proof (intro allI impI)
      fix i assume "Suc i < length (x # y # xs)"
      then show "P ((x # y # xs) ! i) ((x # y # xs) ! Suc i)"
        using a 3 by (cases i) auto
    qed
  next
    assume b: "\<forall>i. Suc i < length (x # y # xs) \<longrightarrow> P ((x # y # xs) ! i) ((x # y # xs) ! Suc i)"
    have "P x y" using b [rule_format, of 0] by simp
    moreover have "\<forall>i. Suc i < length (y # xs) \<longrightarrow> P ((y # xs) ! i) ((y # xs) ! Suc i)"
    proof (intro allI impI)
      fix i assume "Suc i < length (y # xs)"
      then show "P ((y # xs) ! i) ((y # xs) ! Suc i)"
        using b [rule_format, of "Suc i"] by simp
    qed
    ultimately show "successively P (x # y # xs)" using 3 by simp
  qed
qed simp_all

lemma invoke_trace: "invoke c f s = (r, s') \<Longrightarrow> trace s' = trace s @ [c]"
  by (auto simp: invoke_def split: prod.splits)

lemma sendSync_trace:
  "trace (sendSync t syncing cur best s) =
     trace s @ (case send t of None \<Rightarrow> []
                | Some f \<Rightarrow> [CallSend \<lparr>Syncing = syncing,
                               Status = \<lparr>CurrentBlock = cur, HighestBlock = best\<rparr>\<rparr>])"
  by (auto simp: sendSync_def invoke_def Let_def split: option.splits prod.splits)

lemma sendSync_None: "send t = None \<Longrightarrow> sendSync t syncing cur best s = s"
  by (simp add: sendSync_def)

subsection \<open>The header validator: what it calls, what it accepts, what it rejects\<close>

lemma validateHeaders_trace:
  "validateHeaders bc prev hs s = (r, s') \<Longrightarrow>
   \<exists>k \<le> length hs. trace s' = trace s @ map (\<lambda>h. CallValidateSeal h False) (take k hs)
      \<and> (r = None \<longrightarrow> k = length hs)"
proof (induction hs arbitrary: prev s)
  case Nil
  then show ?case by simp
next
  case (Cons h hs)
  show ?case
  proof (cases "invoke (CallValidateSeal h False) (ValidateSeal bc h False) s")
    case (Pair e s1)
    note inv = invoke_trace [OF Pair]
    show ?thesis
    proof (cases "r = None")
      case True
      with Cons.prems Pair have rec: "validateHeaders bc (Some h) hs s1 = (r, s')"
        by (auto split: if_splits option.splits)
      from Cons.IH [OF rec] obtain k where "k \<le> length hs"
        "trace s' = trace s1 @ map (\<lambda>h. CallValidateSeal h False) (take k hs)"
        "r = None \<longrightarrow> k = length hs" by blast
      with inv show ?thesis by (intro exI [of _ "Suc k"]) simp
    next
      case False
      from Cons.prems Pair consider "s' = s" | "s' = s1" | "validateHeaders bc (Some h) hs s1 = (r, s')"
        by (auto split: if_splits option.splits)
      then show ?thesis
      proof cases
        case 1
        with False show ?thesis by (intro exI [of _ 0]) auto
      next
        case 2
        with False inv show ?thesis by (intro exI [of _ "Suc 0"]) auto
      next
        case 3
        from Cons.IH [OF 3] obtain k where "k \<le> length hs"
          "trace s' = trace s1 @ map (\<lambda>h. CallValidateSeal h False) (take k hs)" by blast
        with inv False show ?thesis by (intro exI [of _ "Suc k"]) auto
      qed
    qed
  qed
qed

lemma validateHeaders_accepted:
  "validateHeaders bc prev hs s = (None, s') \<Longrightarrow>
   successively (\<lambda>p h. NumberU64 h = NumberU64 p + 1 \<and> Hash p = GetParentHash h)
     (case prev of None \<Rightarrow> hs | Some p \<Rightarrow> p # hs)"
proof (induction hs arbitrary: prev s)
  case Nil
  then show ?case by (simp split: option.splits)
next
  case (Cons h hs)
  obtain e s1 where inv: "invoke (CallValidateSeal h False) (ValidateSeal bc h False) s = (e, s1)"
    by (cases "invoke (CallValidateSeal h False) (ValidateSeal bc h False) s")
  with Cons.prems have rec: "validateHeaders bc (Some h) hs s1 = (None, s')"
    by (auto split: if_splits option.splits)
  from Cons.IH [OF rec] have "successively (\<lambda>p h. NumberU64 h = NumberU64 p + 1 \<and> Hash p = GetParentHash h) (h # hs)"
    by simp
  with Cons.prems show ?case
    by (cases prev) (auto split: if_splits)
qed



lemma validateHeaders_accepts:
  "\<forall>h w. fst (ValidateSeal bc h False w) = None \<Longrightarrow>
   successively (\<lambda>p h. NumberU64 h = NumberU64 p + 1 \<and> Hash p = GetParentHash h)
       (case prev of None \<Rightarrow> hs | Some p \<Rightarrow> p # hs) \<Longrightarrow>
   fst (validateHeaders bc prev hs s) = None"
proof (induction hs arbitrary: prev s)
  case Nil
  then show ?case by simp
next
  case (Cons h hs)
  obtain r s1 where inv: "invoke (CallValidateSeal h False) (ValidateSeal bc h False) s = (r, s1)"
    by (cases "invoke (CallValidateSeal h False) (ValidateSeal bc h False) s")
  from Cons.prems(1) have "fst (ValidateSeal bc h False (world s)) = None"
    by blast
  with inv have r: "r = None"
    by (auto simp: invoke_def split: prod.splits)
  from Cons.prems(2) have tl: "successively (\<lambda>p h. NumberU64 h = NumberU64 p + 1 \<and> Hash p = GetParentHash h) (h # hs)"
    by (cases prev) (auto simp: successively_Cons)
  from Cons.IH [OF Cons.prems(1), of "Some h" s1] tl
  have "fst (validateHeaders bc (Some h) hs s1) = None" by simp
  with Cons.prems(2) inv r show ?case
    by (cases prev) (auto simp: successively_Cons)
qed

subsection \<open>The skip gate\<close>

text \<open>
  C8. When the skip predicate holds, \<^verbatim>\<open>Run\<close> returns nil at once, whatever the fuel and
  whatever the collaborators are: the state is the one it started in, so no progress
  event was sent, no collaborator was called and the world (the chain) is unchanged.
\<close>

theorem Run_skip:
  "needSkip t (world s) \<Longrightarrow> Run t bc fuel s = Some (Ret None, s)"
  by (simp add: Run_def)

theorem Run_skip_witness:
  "needSkip ((sampleTask 10 (sampleHeader 5) [sampleHeader 6])\<lparr>needSkip := (\<lambda>w. True)\<rparr>)
     (world (sampleState 5)) \<and>
   Run ((sampleTask 10 (sampleHeader 5) [sampleHeader 6])\<lparr>needSkip := (\<lambda>w. True)\<rparr>)
     (sampleChain []) 0 (sampleState 5) = Some (Ret None, sampleState 5)"
  using Run_skip [of "(sampleTask 10 (sampleHeader 5) [sampleHeader 6])\<lparr>needSkip := (\<lambda>w. True)\<rparr>"
      "sampleState 5" "sampleChain []" 0]
  by (simp add: sampleTask_def)

subsection \<open>Header batches in \<^verbatim>\<open>Run\<close>\<close>





lemma validateHeaderList_accepted_step:
  assumes fetch: "invoke (CallGetHeaders a) (getHeaders t a) s0 = ((hs, None), s)"
    and acc: "fst (validateHeaderList bc hs s) = None"
    and ne: "hs \<noteq> []"
  shows "outerLoop (Suc n) t bc (Some a) s0 =
     (case innerLoop n t bc (map Hash hs) (Some a) (snd (validateHeaderList bc hs s)) of
        None \<Rightarrow> None
      | Some (Inl out, s3) \<Rightarrow> Some (Inl out, s3)
      | Some (Inr ancestor', s3) \<Rightarrow> outerLoop n t bc ancestor' s3)"
  using assms by (cases "validateHeaderList bc hs s") simp

text \<open>
  C1, as amended. The validator compares adjacent headers of the batch only: its \<^verbatim>\<open>prev\<close>
  starts as nil, the ancestor is not passed to it, and the first header is checked by the
  seal validator alone. With a seal validator that accepts every header, a batch is
  accepted exactly when its adjacent pairs are contiguous and linked; \<^verbatim>\<open>Run\<close> then goes on
  to the block fetch of the inner loop, whether or not the first header extends the
  ancestor.
\<close>

theorem validateHeaderList_first_header_unlinked:
  assumes seal: "\<forall>h w. fst (ValidateSeal bc h False w) = None"
  shows "(fst (validateHeaderList bc hs s) = None \<longleftrightarrow>
            (\<forall>i. Suc i < length hs \<longrightarrow>
               NumberU64 (hs ! Suc i) = NumberU64 (hs ! i) + 1 \<and>
               Hash (hs ! i) = GetParentHash (hs ! Suc i))) \<and>
         (invoke (CallGetHeaders a) (getHeaders t a) s0 = ((hs, None), s) \<and> hs \<noteq> [] \<and>
          (\<forall>i. Suc i < length hs \<longrightarrow>
               NumberU64 (hs ! Suc i) = NumberU64 (hs ! i) + 1 \<and>
               Hash (hs ! i) = GetParentHash (hs ! Suc i)) \<longrightarrow>
            outerLoop (Suc n) t bc (Some a) s0 =
              (case innerLoop n t bc (map Hash hs) (Some a) (snd (validateHeaderList bc hs s)) of
                 None \<Rightarrow> None
               | Some (Inl out, s3) \<Rightarrow> Some (Inl out, s3)
               | Some (Inr ancestor', s3) \<Rightarrow> outerLoop n t bc ancestor' s3))"
proof -
  let ?linked = "\<forall>i. Suc i < length hs \<longrightarrow>
               NumberU64 (hs ! Suc i) = NumberU64 (hs ! i) + 1 \<and>
               Hash (hs ! i) = GetParentHash (hs ! Suc i)"
  have iff: "fst (validateHeaderList bc hs s) = None \<longleftrightarrow> ?linked" for s
  proof
    assume "fst (validateHeaderList bc hs s) = None"
    then have "validateHeaders bc None hs s = (None, snd (validateHeaders bc None hs s))"
      by (cases "validateHeaders bc None hs s") (simp add: validateHeaderList_def)
    from validateHeaders_accepted [OF this] show ?linked
      by (simp add: successively_nth)
  next
    assume ?linked
    then have "successively (\<lambda>p h. NumberU64 h = NumberU64 p + 1 \<and> Hash p = GetParentHash h) hs"
      by (simp add: successively_nth)
    with validateHeaders_accepts [OF seal, where prev = None and hs = hs and s = s]
    show "fst (validateHeaderList bc hs s) = None"
      by (simp add: validateHeaderList_def)
  qed
  show ?thesis
  proof (intro conjI impI)
    show "fst (validateHeaderList bc hs s) = None \<longleftrightarrow> ?linked" by (rule iff)
  next
    assume h: "invoke (CallGetHeaders a) (getHeaders t a) s0 = ((hs, None), s) \<and> hs \<noteq> [] \<and> ?linked"
    then have "fst (validateHeaderList bc hs s) = None" using iff by blast
    with h show "outerLoop (Suc n) t bc (Some a) s0 =
              (case innerLoop n t bc (map Hash hs) (Some a) (snd (validateHeaderList bc hs s)) of
                 None \<Rightarrow> None
               | Some (Inl out, s3) \<Rightarrow> Some (Inl out, s3)
               | Some (Inr ancestor', s3) \<Rightarrow> outerLoop n t bc ancestor' s3)"
      by (intro validateHeaderList_accepted_step) auto
  qed
qed

text \<open>
  C1 as stated fails: the ancestor is the header at height 5 and the peer answers with the
  single header at height 9, whose parent hash is not the ancestor's hash. \<^verbatim>\<open>Run\<close> fetches
  block 9, commits it and returns nil.
\<close>

theorem Run_first_header_counterexample:
  "NumberU64 (sampleHeader 9) \<noteq> NumberU64 (sampleHeader 5) + 1 \<and>
   Hash (sampleHeader 5) \<noteq> GetParentHash (sampleHeader 9) \<and>
   Run (sampleTask 10 (sampleHeader 5) [sampleHeader 9]) (sampleChain []) 5 (sampleState 5) =
     Some (Ret None,
       \<lparr>world = sampleHeader 9,
        trace =
          [CallSend \<lparr>Syncing = False, Status = \<lparr>CurrentBlock = 5, HighestBlock = 200\<rparr>\<rparr>,
           CallFindAncestor,
           CallGetHeaders (sampleHeader 5),
           CallValidateSeal (sampleHeader 9) False,
           CallGetBlocks [9],
           CallAddBlock (sampleBlock 9),
           CallGetHeaders (sampleHeader 9)]\<rparr>)"
  by code_simp

text \<open>The same batch on the sample chain, whose seal validator accepts every header.\<close>

theorem validateHeaderList_first_header_unlinked_witness:
  "fst (ValidateSeal (sampleChain []) (sampleHeader 9) False (sampleHeader 5)) = None \<and>
   invoke (CallGetHeaders (sampleHeader 5))
       (getHeaders (sampleTask 10 (sampleHeader 5) [sampleHeader 9]) (sampleHeader 5))
       (sampleState 5)
     = (([sampleHeader 9], None),
        \<lparr>world = sampleHeader 5, trace = [CallGetHeaders (sampleHeader 5)]\<rparr>) \<and>
   NumberU64 (sampleHeader 9) \<noteq> NumberU64 (sampleHeader 5) + 1 \<and>
   fst (validateHeaderList (sampleChain []) [sampleHeader 9]
          \<lparr>world = sampleHeader 5, trace = [CallGetHeaders (sampleHeader 5)]\<rparr>) = None \<and>
   outerLoop (Suc 2) (sampleTask 10 (sampleHeader 5) [sampleHeader 9]) (sampleChain [])
       (Some (sampleHeader 5)) (sampleState 5) =
     (case innerLoop 2 (sampleTask 10 (sampleHeader 5) [sampleHeader 9]) (sampleChain [])
             (map Hash [sampleHeader 9]) (Some (sampleHeader 5))
             (snd (validateHeaderList (sampleChain []) [sampleHeader 9]
                \<lparr>world = sampleHeader 5, trace = [CallGetHeaders (sampleHeader 5)]\<rparr>)) of
        None \<Rightarrow> None
      | Some (Inl out, s3) \<Rightarrow> Some (Inl out, s3)
      | Some (Inr ancestor', s3) \<Rightarrow>
          outerLoop 2 (sampleTask 10 (sampleHeader 5) [sampleHeader 9]) (sampleChain [])
            ancestor' s3)"
proof -
  let ?t = "sampleTask 10 (sampleHeader 5) [sampleHeader 9]"
  let ?s1 = "\<lparr>world = sampleHeader 5, trace = [CallGetHeaders (sampleHeader 5)]\<rparr>"
  have seal: "\<forall>h w. fst (ValidateSeal (sampleChain []) h False w) = None"
    by (simp add: sample_defs)
  have fetch: "invoke (CallGetHeaders (sampleHeader 5)) (getHeaders ?t (sampleHeader 5))
                 (sampleState 5) = (([sampleHeader 9], None), ?s1)"
    by (simp add: sample_defs invoke_def)
  have gap: "NumberU64 (sampleHeader 9) \<noteq> NumberU64 (sampleHeader 5) + 1"
    by (simp add: sample_defs)
  note inst = validateHeaderList_first_header_unlinked [OF seal, where hs = "[sampleHeader 9]"
      and s = ?s1 and a = "sampleHeader 5" and t = ?t and ?s0.0 = "sampleState 5" and n = 2]
  from inst have acc: "fst (validateHeaderList (sampleChain []) [sampleHeader 9] ?s1) = None"
    by simp
  from inst fetch have step: "outerLoop (Suc 2) ?t (sampleChain []) (Some (sampleHeader 5)) (sampleState 5) =
     (case innerLoop 2 ?t (sampleChain []) (map Hash [sampleHeader 9]) (Some (sampleHeader 5))
             (snd (validateHeaderList (sampleChain []) [sampleHeader 9] ?s1)) of
        None \<Rightarrow> None
      | Some (Inl out, s3) \<Rightarrow> Some (Inl out, s3)
      | Some (Inr ancestor', s3) \<Rightarrow> outerLoop 2 ?t (sampleChain []) ancestor' s3)"
    by simp
  from seal have "fst (ValidateSeal (sampleChain []) (sampleHeader 9) False (sampleHeader 5)) = None"
    by blast
  with fetch gap acc step show ?thesis by blast
qed

subsection \<open>The trace only grows\<close>

lemma invoke_prefix: "invoke c f s = (r, s') \<Longrightarrow> prefix (trace s) (trace s')"
  by (simp add: invoke_trace)

lemma sendSync_prefix: "prefix (trace s) (trace (sendSync t syncing cur best s))"
  by (simp add: sendSync_trace)

lemma validateHeaders_prefix:
  "validateHeaders bc prev hs s = (r, s') \<Longrightarrow> prefix (trace s) (trace s')"
  using validateHeaders_trace [of bc prev hs s r s'] by auto

lemma commitBlocks_prefix:
  "commitBlocks t bc blocks counter ancestor rest s = (r, s') \<Longrightarrow> prefix (trace s) (trace s')"
proof (induction rest arbitrary: counter ancestor s)
  case Nil
  then show ?case by simp
next
  case (Cons blk rest)
  obtain e1 s1 where hook: "(case syncBlock t of None \<Rightarrow> (None, s)
            | Some f \<Rightarrow> invoke (CallSyncBlock blk) (f blk) s) = (e1, s1)"
    by (cases "(case syncBlock t of None \<Rightarrow> (None, s)
            | Some f \<Rightarrow> invoke (CallSyncBlock blk) (f blk) s)")
  then have p1: "prefix (trace s) (trace s1)"
    by (auto split: option.splits dest: invoke_prefix)
  obtain e2 s2 where add: "invoke (CallAddBlock blk) (AddBlock bc blk) s1 = (e2, s2)"
    by (cases "invoke (CallAddBlock blk) (AddBlock bc blk) s1")
  then have p2: "prefix (trace s1) (trace s2)"
    by (rule invoke_prefix)
  let ?s3 = "if Suc counter mod 100 = 0
             then sendSync t True (BlockNumberU64 blk) (BlockNumberU64 (last blocks)) s2 else s2"
  have p3: "prefix (trace s2) (trace ?s3)"
    by (simp add: sendSync_prefix)
  from Cons.prems hook add consider "s' = s1" | "s' = s2"
    | "commitBlocks t bc blocks (Suc counter) (IHeader blk) rest ?s3 = (r, s')"
    by (auto simp: Let_def split: option.splits if_splits)
  then show ?case
  proof cases
    case 1
    with p1 show ?thesis by simp
  next
    case 2
    with p1 p2 show ?thesis by (auto intro: prefix_order.trans)
  next
    case 3
    from Cons.IH [OF 3] p1 p2 p3 show ?thesis
      by (blast intro: prefix_order.trans)
  qed
qed

lemma fetchChunk_prefix:
  "fetchChunk t hashlist s = (r, s') \<Longrightarrow> prefix (trace s) (trace s')"
  by (auto simp: fetchChunk_def invoke_def split: if_splits prod.splits option.splits)

lemma innerLoop_prefix:
  "innerLoop n t bc hashlist ancestor s = Some (r, s') \<Longrightarrow> prefix (trace s) (trace s')"
proof (induction n t bc hashlist ancestor s rule: innerLoop.induct)
  case (1 n t bc ancestor s)
  then show ?case by simp
next
  case (2 t bc h hs ancestor s)
  then show ?case by simp
next
  case (3 n t bc h hs ancestor s)
  obtain f s1 where fc: "fetchChunk t (h # hs) s = (f, s1)"
    by (cases "fetchChunk t (h # hs) s")
  note p1 = fetchChunk_prefix [OF fc]
  show ?case
  proof (cases f)
    case (Inl out)
    with "3.prems" fc p1 show ?thesis by auto
  next
    case (Inr bh)
    obtain blocks hashlist' where bh: "bh = (blocks, hashlist')" by (cases bh)
    obtain c s2 where cb: "commitBlocks t bc blocks 0 ancestor blocks s1 = (c, s2)"
      by (cases "commitBlocks t bc blocks 0 ancestor blocks s1")
    note p2 = commitBlocks_prefix [OF cb]
    show ?thesis
    proof (cases c)
      case (Inl e)
      with "3.prems" fc Inr bh cb p1 p2 show ?thesis
        by (auto intro: prefix_order.trans)
    next
      case (Inr ancestor')
      with "3.prems" fc \<open>f = Inr bh\<close> bh cb
      have rec: "innerLoop n t bc hashlist' ancestor' s2 = Some (r, s')" by simp
      from "3.IH" [OF fc [symmetric] \<open>f = Inr bh\<close> bh [symmetric] cb [symmetric] Inr rec] p1 p2
      show ?thesis by (blast intro: prefix_order.trans)
    qed
  qed
qed

lemma outerLoop_step_cases:
  assumes run: "outerLoop (Suc n) t bc (Some a) s = Some (r, s')"
    and fetch: "invoke (CallGetHeaders a) (getHeaders t a) s = ((hs, e), s1)"
    and val: "validateHeaderList bc hs s1 = (v, s2)"
  shows "s' = s1 \<or> s' = s2 \<or>
     (\<exists>ancestor' s3. innerLoop n t bc (map Hash hs) (Some a) s2 = Some (ancestor', s3) \<and>
        (s' = s3 \<or> (\<exists>a'. ancestor' = Inr a' \<and> outerLoop n t bc a' s3 = Some (r, s'))))"
  using assms
  by (cases "innerLoop n t bc (map Hash hs) (Some a) s2")
     (auto split: option.splits if_splits sum.splits)

lemma outerLoop_prefix:
  "outerLoop n t bc ancestor s = Some (r, s') \<Longrightarrow> prefix (trace s) (trace s')"
proof (induction n arbitrary: ancestor s)
  case 0
  then show ?case by (cases ancestor) auto
next
  case (Suc n)
  show ?case
  proof (cases ancestor)
    case None
    with Suc.prems show ?thesis by simp
  next
    case (Some a)
    obtain hs e s1 where fetch: "invoke (CallGetHeaders a) (getHeaders t a) s = ((hs, e), s1)"
      by (cases "invoke (CallGetHeaders a) (getHeaders t a) s") auto
    note p1 = invoke_prefix [OF fetch]
    obtain v s2 where val: "validateHeaderList bc hs s1 = (v, s2)"
      by (cases "validateHeaderList bc hs s1")
    then have p2: "prefix (trace s1) (trace s2)"
      by (auto simp: validateHeaderList_def dest: validateHeaders_prefix)
    from outerLoop_step_cases [OF Suc.prems [unfolded Some] fetch val]
    consider "s' = s1" | "s' = s2"
      | x where "innerLoop n t bc (map Hash hs) (Some a) s2 = Some (x, s')"
      | x s3 a' where "innerLoop n t bc (map Hash hs) (Some a) s2 = Some (x, s3)"
          "outerLoop n t bc a' s3 = Some (r, s')"
      by blast
    then show ?thesis
    proof cases
      case 1
      with p1 show ?thesis by simp
    next
      case 2
      with p1 p2 show ?thesis by (metis prefix_order.trans)
    next
      case 3
      from innerLoop_prefix [OF 3] p1 p2 show ?thesis
        by (metis prefix_order.trans)
    next
      case 4
      from Suc.IH [OF 4(2)] innerLoop_prefix [OF 4(1)] p1 p2 show ?thesis
        by (metis prefix_order.trans)
    qed
  qed
qed

lemma outerLoop_first_call:
  assumes run: "outerLoop (Suc n) t bc (Some a) s = Some (r, s')"
  shows "prefix (trace s @ [CallGetHeaders a]) (trace s')"
proof -
  obtain hs e s1 where fetch: "invoke (CallGetHeaders a) (getHeaders t a) s = ((hs, e), s1)"
    by (cases "invoke (CallGetHeaders a) (getHeaders t a) s") auto
  note t1 = invoke_trace [OF fetch]
  obtain v s2 where val: "validateHeaderList bc hs s1 = (v, s2)"
    by (cases "validateHeaderList bc hs s1")
  then have p2: "prefix (trace s1) (trace s2)"
    by (auto simp: validateHeaderList_def dest: validateHeaders_prefix)
  from outerLoop_step_cases [OF run fetch val]
  consider "s' = s1" | "s' = s2"
    | x where "innerLoop n t bc (map Hash hs) (Some a) s2 = Some (x, s')"
    | x s3 a' where "innerLoop n t bc (map Hash hs) (Some a) s2 = Some (x, s3)"
        "outerLoop n t bc a' s3 = Some (r, s')"
    by blast
  then have "prefix (trace s1) (trace s')"
  proof cases
    case 1
    then show ?thesis by simp
  next
    case 2
    with p2 show ?thesis by simp
  next
    case 3
    from innerLoop_prefix [OF 3] p2 show ?thesis
      by (metis prefix_order.trans)
  next
    case 4
    from outerLoop_prefix [OF 4(2)] innerLoop_prefix [OF 4(1)] p2 show ?thesis
      by (metis prefix_order.trans)
  qed
  with t1 show ?thesis by simp
qed

subsection \<open>The staleness gate\<close>

lemma Run_after_ancestor:
  assumes skip: "\<not> needSkip t (world s)"
    and anc: "invoke CallFindAncestor (findAncestor t)
           (sendSync t False (NumberU64 (CurrentHeader bc (world s))) (NumberU64 (header t)) s)
         = ((Some a, None), s2)"
  shows "Run t bc fuel s =
     (if NumberU64 (CurrentHeader bc (world s2)) - NumberU64 a > maxSyncStaleness t
      then Some (Ret None, s2)
      else
        (case outerLoop fuel t bc (Some a) s2 of
           None \<Rightarrow> None
         | Some (Inl out, s3) \<Rightarrow> Some (out, s3)
         | Some (Inr u, s3) \<Rightarrow>
             Some (Ret None,
                   sendSync t False (NumberU64 (CurrentHeader bc (world s3)))
                     (NumberU64 (header t)) s3)))"
  using assms by (simp add: Run_def Let_def)

lemma Run_ancestor_trace:
  assumes anc: "invoke CallFindAncestor (findAncestor t)
           (sendSync t False (NumberU64 (CurrentHeader bc (world s))) (NumberU64 (header t)) s)
         = (r, s2)"
  shows "trace s2 = trace s @
     (case send t of
        None \<Rightarrow> []
      | Some f \<Rightarrow>
          [CallSend \<lparr>Syncing = False,
             Status = \<lparr>CurrentBlock = NumberU64 (CurrentHeader bc (world s)),
                        HighestBlock = NumberU64 (header t)\<rparr>\<rparr>]) @
     [CallFindAncestor]"
  using invoke_trace [OF anc] by (simp add: sendSync_trace)

text \<open>
  C7. The ancestor locator has returned the header \<open>a\<close>, in the state \<open>s2\<close>. When the
  difference of the heights is the maximal staleness, \<^verbatim>\<open>Run\<close> goes on with the fetch loop:
  its result is the loop's, and a run that ends has called the header fetcher for \<open>a\<close> right
  after the ancestor locator. When the difference is one more (as a number, so this
  excludes the maximal staleness \<open>2^64 - 1\<close>), \<^verbatim>\<open>Run\<close> returns nil in the state \<open>s2\<close>, whatever
  the fuel: it has sent the start event, if a sink is attached, and called the ancestor
  locator, and nothing else.
\<close>

theorem Run_staleness_boundary:
  assumes skip: "\<not> needSkip t (world s)"
    and anc: "invoke CallFindAncestor (findAncestor t)
           (sendSync t False (NumberU64 (CurrentHeader bc (world s))) (NumberU64 (header t)) s)
         = ((Some a, None), s2)"
  shows "(NumberU64 (CurrentHeader bc (world s2)) - NumberU64 a = maxSyncStaleness t \<longrightarrow>
            Run t bc fuel s =
              (case outerLoop fuel t bc (Some a) s2 of
                 None \<Rightarrow> None
               | Some (Inl out, s3) \<Rightarrow> Some (out, s3)
               | Some (Inr u, s3) \<Rightarrow>
                   Some (Ret None,
                         sendSync t False (NumberU64 (CurrentHeader bc (world s3)))
                           (NumberU64 (header t)) s3)) \<and>
            (\<forall>n out s'. Run t bc (Suc n) s = Some (out, s') \<longrightarrow>
               prefix (trace s2 @ [CallGetHeaders a]) (trace s'))) \<and>
         (unat (NumberU64 (CurrentHeader bc (world s2)) - NumberU64 a)
            = unat (maxSyncStaleness t) + 1 \<longrightarrow>
            Run t bc fuel s = Some (Ret None, s2) \<and>
            trace s2 = trace s @
              (case send t of
                 None \<Rightarrow> []
               | Some f \<Rightarrow>
                   [CallSend \<lparr>Syncing = False,
                      Status = \<lparr>CurrentBlock = NumberU64 (CurrentHeader bc (world s)),
                                 HighestBlock = NumberU64 (header t)\<rparr>\<rparr>]) @
              [CallFindAncestor])"
proof (intro conjI impI allI)
  assume eq: "NumberU64 (CurrentHeader bc (world s2)) - NumberU64 a = maxSyncStaleness t"
  then show "Run t bc fuel s =
              (case outerLoop fuel t bc (Some a) s2 of
                 None \<Rightarrow> None
               | Some (Inl out, s3) \<Rightarrow> Some (out, s3)
               | Some (Inr u, s3) \<Rightarrow>
                   Some (Ret None,
                         sendSync t False (NumberU64 (CurrentHeader bc (world s3)))
                           (NumberU64 (header t)) s3))"
    by (simp add: Run_after_ancestor [OF skip anc])
  fix n out s'
  assume run: "Run t bc (Suc n) s = Some (out, s')"
  from run eq obtain r s3 where loop: "outerLoop (Suc n) t bc (Some a) s2 = Some (r, s3)"
    and fin: "s' = s3 \<or> s' = sendSync t False (NumberU64 (CurrentHeader bc (world s3)))
                           (NumberU64 (header t)) s3"
    unfolding Run_after_ancestor [OF skip anc]
    by (auto split: option.splits sum.splits prod.splits)
  from fin have "prefix (trace s3) (trace s')"
    by (auto simp: sendSync_prefix)
  with outerLoop_first_call [OF loop]
  show "prefix (trace s2 @ [CallGetHeaders a]) (trace s')"
    by (metis prefix_order.trans)
next
  assume "unat (NumberU64 (CurrentHeader bc (world s2)) - NumberU64 a)
            = unat (maxSyncStaleness t) + 1"
  then have "NumberU64 (CurrentHeader bc (world s2)) - NumberU64 a > maxSyncStaleness t"
    by (simp add: word_less_nat_alt)
  then show "Run t bc fuel s = Some (Ret None, s2)"
    by (simp add: Run_after_ancestor [OF skip anc])
next
  show "trace s2 = trace s @
              (case send t of
                 None \<Rightarrow> []
               | Some f \<Rightarrow>
                   [CallSend \<lparr>Syncing = False,
                      Status = \<lparr>CurrentBlock = NumberU64 (CurrentHeader bc (world s)),
                                 HighestBlock = NumberU64 (header t)\<rparr>\<rparr>]) @
              [CallFindAncestor]"
    by (rule Run_ancestor_trace [OF anc])
qed

text \<open>
  On the sample chain with head 5 and maximal staleness 0: the ancestor at height 5 lets
  the task run, the ancestor at height 4 ends it.
\<close>

theorem Run_staleness_boundary_witness:
  "\<not> needSkip ((sampleTask 10 (sampleHeader 5) [sampleHeader 6])\<lparr>maxSyncStaleness := 0\<rparr>)
       (world (sampleState 5)) \<and>
   NumberU64 (CurrentHeader (sampleChain []) (sampleHeader 5)) - NumberU64 (sampleHeader 5)
     = maxSyncStaleness ((sampleTask 10 (sampleHeader 5) [sampleHeader 6])\<lparr>maxSyncStaleness := 0\<rparr>) \<and>
   Run ((sampleTask 10 (sampleHeader 5) [sampleHeader 6])\<lparr>maxSyncStaleness := 0\<rparr>)
       (sampleChain []) (Suc 2) (sampleState 5)
     = Some (Ret None,
         \<lparr>world = sampleHeader 6,
          trace =
            [CallSend \<lparr>Syncing = False, Status = \<lparr>CurrentBlock = 5, HighestBlock = 200\<rparr>\<rparr>,
             CallFindAncestor,
             CallGetHeaders (sampleHeader 5),
             CallValidateSeal (sampleHeader 6) False,
             CallGetBlocks [6],
             CallAddBlock (sampleBlock 6),
             CallGetHeaders (sampleHeader 6)]\<rparr>) \<and>
   prefix
     ([CallSend \<lparr>Syncing = False, Status = \<lparr>CurrentBlock = 5, HighestBlock = 200\<rparr>\<rparr>,
       CallFindAncestor] @ [CallGetHeaders (sampleHeader 5)])
     [CallSend \<lparr>Syncing = False, Status = \<lparr>CurrentBlock = 5, HighestBlock = 200\<rparr>\<rparr>,
      CallFindAncestor,
      CallGetHeaders (sampleHeader 5),
      CallValidateSeal (sampleHeader 6) False,
      CallGetBlocks [6],
      CallAddBlock (sampleBlock 6),
      CallGetHeaders (sampleHeader 6)] \<and>
   unat (NumberU64 (CurrentHeader (sampleChain []) (sampleHeader 5)) - NumberU64 (sampleHeader 4))
     = unat (maxSyncStaleness
               ((sampleTask 10 (sampleHeader 4) [sampleHeader 5])\<lparr>maxSyncStaleness := 0\<rparr>)) + 1 \<and>
   Run ((sampleTask 10 (sampleHeader 4) [sampleHeader 5])\<lparr>maxSyncStaleness := 0\<rparr>)
       (sampleChain []) 0 (sampleState 5)
     = Some (Ret None,
         \<lparr>world = sampleHeader 5,
          trace =
            [CallSend \<lparr>Syncing = False, Status = \<lparr>CurrentBlock = 5, HighestBlock = 200\<rparr>\<rparr>,
             CallFindAncestor]\<rparr>)"
proof -
  let ?t1 = "(sampleTask 10 (sampleHeader 5) [sampleHeader 6])\<lparr>maxSyncStaleness := 0\<rparr>"
  let ?t2 = "(sampleTask 10 (sampleHeader 4) [sampleHeader 5])\<lparr>maxSyncStaleness := 0\<rparr>"
  let ?start = "CallSend \<lparr>Syncing = False, Status = \<lparr>CurrentBlock = 5, HighestBlock = 200\<rparr>\<rparr>"
  let ?s2 = "\<lparr>world = sampleHeader 5, trace = [?start, CallFindAncestor]\<rparr>"
  let ?s' = "\<lparr>world = sampleHeader 6,
          trace =
            [?start,
             CallFindAncestor,
             CallGetHeaders (sampleHeader 5),
             CallValidateSeal (sampleHeader 6) False,
             CallGetBlocks [6],
             CallAddBlock (sampleBlock 6),
             CallGetHeaders (sampleHeader 6)]\<rparr>"
  have skip1: "\<not> needSkip ?t1 (world (sampleState 5))"
    by (simp add: sample_defs)
  have anc1: "invoke CallFindAncestor (findAncestor ?t1)
           (sendSync ?t1 False (NumberU64 (CurrentHeader (sampleChain []) (world (sampleState 5))))
              (NumberU64 (header ?t1)) (sampleState 5))
         = ((Some (sampleHeader 5), None), ?s2)"
    by (simp add: sample_defs invoke_def sendSync_def)
  have eq1: "NumberU64 (CurrentHeader (sampleChain []) (sampleHeader 5)) - NumberU64 (sampleHeader 5)
     = maxSyncStaleness ?t1"
    by (simp add: sample_defs)
  have run1: "Run ?t1 (sampleChain []) (Suc 2) (sampleState 5) = Some (Ret None, ?s')"
    by code_simp
  from Run_staleness_boundary [OF skip1 anc1, of 0] eq1 run1
  have pre: "prefix (trace ?s2 @ [CallGetHeaders (sampleHeader 5)]) (trace ?s')"
    by simp
  have skip2: "\<not> needSkip ?t2 (world (sampleState 5))"
    by (simp add: sample_defs)
  have anc2: "invoke CallFindAncestor (findAncestor ?t2)
           (sendSync ?t2 False (NumberU64 (CurrentHeader (sampleChain []) (world (sampleState 5))))
              (NumberU64 (header ?t2)) (sampleState 5))
         = ((Some (sampleHeader 4), None), ?s2)"
    by (simp add: sample_defs invoke_def sendSync_def)
  have eq2: "unat (NumberU64 (CurrentHeader (sampleChain []) (sampleHeader 5)) - NumberU64 (sampleHeader 4))
     = unat (maxSyncStaleness ?t2) + 1"
    by (simp add: sample_defs)
  from Run_staleness_boundary [OF skip2 anc2, of 0] eq2
  have run2: "Run ?t2 (sampleChain []) 0 (sampleState 5) = Some (Ret None, ?s2)"
    by simp
  from skip1 eq1 run1 pre eq2 run2 show ?thesis by simp
qed

text \<open>
  C10. When the ancestor is above the head, the difference of the heights wraps: as a
  number it is \<open>2^64\<close> plus the head's height minus the ancestor's. For every maximal
  staleness below that number, \<^verbatim>\<open>Run\<close> returns nil at the staleness gate, and has called
  nothing but the sink (for the start event) and the ancestor locator.
\<close>

theorem Run_staleness_wraps:
  assumes skip: "\<not> needSkip t (world s)"
    and anc: "invoke CallFindAncestor (findAncestor t)
           (sendSync t False (NumberU64 (CurrentHeader bc (world s))) (NumberU64 (header t)) s)
         = ((Some a, None), s2)"
    and ahead: "NumberU64 (CurrentHeader bc (world s2)) < NumberU64 a"
  shows "unat (NumberU64 (CurrentHeader bc (world s2)) - NumberU64 a)
           = 2 ^ 64 + unat (NumberU64 (CurrentHeader bc (world s2))) - unat (NumberU64 a) \<and>
         (unat (maxSyncStaleness t)
            < 2 ^ 64 + unat (NumberU64 (CurrentHeader bc (world s2))) - unat (NumberU64 a) \<longrightarrow>
            Run t bc fuel s = Some (Ret None, s2) \<and>
            trace s2 = trace s @
              (case send t of
                 None \<Rightarrow> []
               | Some f \<Rightarrow>
                   [CallSend \<lparr>Syncing = False,
                      Status = \<lparr>CurrentBlock = NumberU64 (CurrentHeader bc (world s)),
                                 HighestBlock = NumberU64 (header t)\<rparr>\<rparr>]) @
              [CallFindAncestor])"
proof -
  from ahead have lt: "unat (NumberU64 (CurrentHeader bc (world s2))) < unat (NumberU64 a)"
    by (simp add: word_less_nat_alt)
  have wrap: "unat (NumberU64 (CurrentHeader bc (world s2)) - NumberU64 a)
           = 2 ^ 64 + unat (NumberU64 (CurrentHeader bc (world s2))) - unat (NumberU64 a)"
    using lt by (simp add: unat_sub_if_size word_size)
  show ?thesis
  proof (intro conjI impI)
    show "unat (NumberU64 (CurrentHeader bc (world s2)) - NumberU64 a)
           = 2 ^ 64 + unat (NumberU64 (CurrentHeader bc (world s2))) - unat (NumberU64 a)"
      by (rule wrap)
  next
    assume "unat (maxSyncStaleness t)
            < 2 ^ 64 + unat (NumberU64 (CurrentHeader bc (world s2))) - unat (NumberU64 a)"
    with wrap have "NumberU64 (CurrentHeader bc (world s2)) - NumberU64 a > maxSyncStaleness t"
      by (simp add: word_less_nat_alt)
    then show "Run t bc fuel s = Some (Ret None, s2)"
      by (simp add: Run_after_ancestor [OF skip anc])
  next
    show "trace s2 = trace s @
              (case send t of
                 None \<Rightarrow> []
               | Some f \<Rightarrow>
                   [CallSend \<lparr>Syncing = False,
                      Status = \<lparr>CurrentBlock = NumberU64 (CurrentHeader bc (world s)),
                                 HighestBlock = NumberU64 (header t)\<rparr>\<rparr>]) @
              [CallFindAncestor]"
      by (rule Run_ancestor_trace [OF anc])
  qed
qed

text \<open>
  Head 5, ancestor 7, maximal staleness 1000: the difference is \<open>2^64 - 2\<close>, and the task
  ends at the gate.
\<close>

theorem Run_staleness_wraps_witness:
  "\<not> needSkip (sampleTask 10 (sampleHeader 7) [sampleHeader 8]) (world (sampleState 5)) \<and>
   NumberU64 (CurrentHeader (sampleChain []) (sampleHeader 5)) < NumberU64 (sampleHeader 7) \<and>
   unat (NumberU64 (CurrentHeader (sampleChain []) (sampleHeader 5)) - NumberU64 (sampleHeader 7))
     = 18446744073709551614 \<and>
   unat (maxSyncStaleness (sampleTask 10 (sampleHeader 7) [sampleHeader 8]))
     < 2 ^ 64 + unat (NumberU64 (CurrentHeader (sampleChain []) (sampleHeader 5)))
         - unat (NumberU64 (sampleHeader 7)) \<and>
   Run (sampleTask 10 (sampleHeader 7) [sampleHeader 8]) (sampleChain []) 0 (sampleState 5)
     = Some (Ret None,
         \<lparr>world = sampleHeader 5,
          trace =
            [CallSend \<lparr>Syncing = False, Status = \<lparr>CurrentBlock = 5, HighestBlock = 200\<rparr>\<rparr>,
             CallFindAncestor]\<rparr>)"
proof -
  let ?t = "sampleTask 10 (sampleHeader 7) [sampleHeader 8]"
  let ?s2 = "\<lparr>world = sampleHeader 5,
          trace =
            [CallSend \<lparr>Syncing = False, Status = \<lparr>CurrentBlock = 5, HighestBlock = 200\<rparr>\<rparr>,
             CallFindAncestor]\<rparr>"
  have skip: "\<not> needSkip ?t (world (sampleState 5))"
    by (simp add: sample_defs)
  have anc: "invoke CallFindAncestor (findAncestor ?t)
           (sendSync ?t False (NumberU64 (CurrentHeader (sampleChain []) (world (sampleState 5))))
              (NumberU64 (header ?t)) (sampleState 5))
         = ((Some (sampleHeader 7), None), ?s2)"
    by (simp add: sample_defs invoke_def sendSync_def)
  have ahead: "NumberU64 (CurrentHeader (sampleChain []) (world ?s2)) < NumberU64 (sampleHeader 7)"
    by (simp add: sample_defs)
  have small: "unat (maxSyncStaleness ?t)
     < 2 ^ 64 + unat (NumberU64 (CurrentHeader (sampleChain []) (world ?s2)))
         - unat (NumberU64 (sampleHeader 7))"
    by (simp add: sample_defs)
  note inst = Run_staleness_wraps [OF skip anc ahead, of 0]
  from inst have diff: "unat (NumberU64 (CurrentHeader (sampleChain []) (world ?s2)) - NumberU64 (sampleHeader 7))
     = 2 ^ 64 + unat (NumberU64 (CurrentHeader (sampleChain []) (world ?s2)))
         - unat (NumberU64 (sampleHeader 7))"
    by blast
  have val: "2 ^ 64 + unat (NumberU64 (CurrentHeader (sampleChain []) (world ?s2)))
         - unat (NumberU64 (sampleHeader 7)) = 18446744073709551614"
    by (simp add: sample_defs)
  from inst small have run: "Run ?t (sampleChain []) 0 (sampleState 5) = Some (Ret None, ?s2)"
    by blast
  from skip ahead diff val small run show ?thesis by simp
qed

subsection \<open>The progress sink\<close>

text \<open>
  C9. \<^verbatim>\<open>SetSendFunc\<close> changes the \<^verbatim>\<open>send\<close> field only, and that only when the name of the
  task starts with \<^verbatim>\<open>shard-\<close> and no sink is attached. A call on a task with a sink
  leaves the task as it is; so does a call on a task whose name has not the prefix. A task
  without the prefix that starts without a sink has none after any number of calls, and
  \<^verbatim>\<open>sendSync\<close> leaves the state as it is: no call of a sink, no event.
\<close>

theorem SetSendFunc_first_writer:
  "SetSendFunc t f =
     t\<lparr>send := (if prefix ''shard-'' (name t) \<and> send t = None then f else send t)\<rparr> \<and>
   (send t \<noteq> None \<longrightarrow> SetSendFunc t f = t) \<and>
   (\<not> prefix ''shard-'' (name t) \<longrightarrow> SetSendFunc t f = t) \<and>
   (\<not> prefix ''shard-'' (name t) \<and> send t = None \<longrightarrow>
      send (foldl SetSendFunc t fs) = None \<and>
      sendSync (foldl SetSendFunc t fs) syncing cur best s = s)"
proof -
  have unchanged: "foldl SetSendFunc t fs = t" if "\<not> prefix ''shard-'' (name t)"
    using that by (induction fs) (simp_all add: SetSendFunc_def)
  show ?thesis
    by (auto simp: SetSendFunc_def unchanged sendSync_None)
qed

theorem SetSendFunc_first_writer_witness:
  "send ((sampleTask 10 (sampleHeader 5) [])\<lparr>send := None\<rparr>) = None \<and>
   prefix ''shard-'' (name ((sampleTask 10 (sampleHeader 5) [])\<lparr>send := None\<rparr>)) \<and>
   send (SetSendFunc ((sampleTask 10 (sampleHeader 5) [])\<lparr>send := None\<rparr>)
           (Some (\<lambda>v w. (2, w)))) = Some (\<lambda>v w. (2, w)) \<and>
   send (sampleTask 10 (sampleHeader 5) []) \<noteq> None \<and>
   SetSendFunc (sampleTask 10 (sampleHeader 5) []) (Some (\<lambda>v w. (2, w)))
     = sampleTask 10 (sampleHeader 5) [] \<and>
   \<not> prefix ''shard-'' (name ((sampleTask 10 (sampleHeader 5) [])\<lparr>name := ''root'', send := None\<rparr>)) \<and>
   send (foldl SetSendFunc ((sampleTask 10 (sampleHeader 5) [])\<lparr>name := ''root'', send := None\<rparr>)
           [Some (\<lambda>v w. (2, w)), Some (\<lambda>v w. (3, w))]) = None \<and>
   sendSync (foldl SetSendFunc ((sampleTask 10 (sampleHeader 5) [])\<lparr>name := ''root'', send := None\<rparr>)
           [Some (\<lambda>v w. (2, w)), Some (\<lambda>v w. (3, w))]) True 6 7 (sampleState 5)
     = sampleState 5"
proof -
  let ?fresh = "(sampleTask 10 (sampleHeader 5) [])\<lparr>send := None\<rparr>"
  let ?root = "(sampleTask 10 (sampleHeader 5) [])\<lparr>name := ''root'', send := None\<rparr>"
  let ?f = "Some (\<lambda>v (w :: iheader). (2 :: int, w))"
  let ?g = "Some (\<lambda>v (w :: iheader). (3 :: int, w))"
  have none: "send ?fresh = None" by simp
  have shard: "prefix ''shard-'' (name ?fresh)" by (simp add: sample_defs)
  from SetSendFunc_first_writer [of ?fresh ?f] none shard
  have a: "send (SetSendFunc ?fresh ?f) = ?f" by simp
  have set: "send (sampleTask 10 (sampleHeader 5) []) \<noteq> None" by (simp add: sample_defs)
  from SetSendFunc_first_writer [of "sampleTask 10 (sampleHeader 5) []" ?f] set
  have b: "SetSendFunc (sampleTask 10 (sampleHeader 5) []) ?f = sampleTask 10 (sampleHeader 5) []"
    by blast
  have root: "\<not> prefix ''shard-'' (name ?root)" by simp
  have rnone: "send ?root = None" by simp
  from SetSendFunc_first_writer [of ?root _ "[?f, ?g]" True 6 7 "sampleState 5"] root rnone
  have c: "send (foldl SetSendFunc ?root [?f, ?g]) = None \<and>
           sendSync (foldl SetSendFunc ?root [?f, ?g]) True 6 7 (sampleState 5) = sampleState 5"
    by blast
  from none shard a set b root c show ?thesis by blast
qed

subsection \<open>Intermediate progress events\<close>

lemma filter_sendSync:
  "filter (\<lambda>c. isAddBlock c \<or> isSend c) (trace (sendSync t syncing cur best s)) =
     filter (\<lambda>c. isAddBlock c \<or> isSend c) (trace s) @
     (case send t of
        None \<Rightarrow> []
      | Some f \<Rightarrow> [CallSend \<lparr>Syncing = syncing,
                     Status = \<lparr>CurrentBlock = cur, HighestBlock = best\<rparr>\<rparr>])"
  by (simp add: sendSync_trace split: option.splits)

lemma filter_isSend_calls:
  "filter isSend (filter (\<lambda>c. isAddBlock c \<or> isSend c) cs) = filter isSend cs"
  by (induction cs) auto

text \<open>
  C4, as amended. The counter is local to the loop over one response: line 114 sets it to
  0 for each block fetch. With a sink attached, the \<^verbatim>\<open>AddBlock\<close> calls and the events of the
  loop over the response \<open>blocks\<close> are an initial part of the sequence that has, for the
  block at index \<open>i\<close> (from 0), the \<^verbatim>\<open>AddBlock\<close> call and then, when \<open>i + 1\<close> is a multiple of
  100, the event with \<^verbatim>\<open>Syncing = true\<close>, the height of that block as the current height
  and the height of the last block of the response as the highest; they are the whole
  sequence when the loop runs to its end.
\<close>

theorem commitBlocks_progress_events:
  assumes sink: "send t = Some f"
    and run: "commitBlocks t bc blocks 0 ancestor blocks s = (r, s')"
  shows "\<exists>cs. filter (\<lambda>c. isAddBlock c \<or> isSend c) (trace s') =
             filter (\<lambda>c. isAddBlock c \<or> isSend c) (trace s) @ cs \<and>
       prefix cs (concat (map (\<lambda>(i, blk). CallAddBlock blk #
                    (if Suc i mod 100 = 0
                     then [CallSend \<lparr>Syncing = True,
                             Status = \<lparr>CurrentBlock = BlockNumberU64 blk,
                                        HighestBlock = BlockNumberU64 (last blocks)\<rparr>\<rparr>]
                     else [])) (enumerate 0 blocks))) \<and>
       (\<forall>a. r = Inr a \<longrightarrow>
          cs = concat (map (\<lambda>(i, blk). CallAddBlock blk #
                    (if Suc i mod 100 = 0
                     then [CallSend \<lparr>Syncing = True,
                             Status = \<lparr>CurrentBlock = BlockNumberU64 blk,
                                        HighestBlock = BlockNumberU64 (last blocks)\<rparr>\<rparr>]
                     else [])) (enumerate 0 blocks)))"
proof -
  let ?P = "\<lambda>c. isAddBlock c \<or> isSend c"
  let ?ev = "\<lambda>b. CallSend \<lparr>Syncing = True,
                 Status = \<lparr>CurrentBlock = BlockNumberU64 b,
                            HighestBlock = BlockNumberU64 (last blocks)\<rparr>\<rparr>"
  let ?one = "\<lambda>(i, b). CallAddBlock b # (if Suc i mod 100 = 0 then [?ev b] else [])"
  have gen: "\<exists>cs. filter ?P (trace s') = filter ?P (trace s0) @ cs \<and>
       prefix cs (concat (map ?one (enumerate counter rest))) \<and>
       (\<forall>a. r = Inr a \<longrightarrow> cs = concat (map ?one (enumerate counter rest)))"
    if "commitBlocks t bc blocks counter anc rest s0 = (r, s')" for counter anc rest s0
    using that
  proof (induction rest arbitrary: counter anc s0)
    case Nil
    then show ?case by auto
  next
    case (Cons blk rest)
    obtain e1 s1 where hook: "(case syncBlock t of None \<Rightarrow> (None, s0)
              | Some f \<Rightarrow> invoke (CallSyncBlock blk) (f blk) s0) = (e1, s1)"
      by (cases "(case syncBlock t of None \<Rightarrow> (None, s0)
              | Some f \<Rightarrow> invoke (CallSyncBlock blk) (f blk) s0)")
    then have f1: "filter ?P (trace s1) = filter ?P (trace s0)"
      by (auto split: option.splits dest: invoke_trace)
    obtain e2 s2 where add: "invoke (CallAddBlock blk) (AddBlock bc blk) s1 = (e2, s2)"
      by (cases "invoke (CallAddBlock blk) (AddBlock bc blk) s1")
    have f2: "filter ?P (trace s2) = filter ?P (trace s0) @ [CallAddBlock blk]"
      using invoke_trace [OF add] f1 by simp
    let ?s3 = "if Suc counter mod 100 = 0
               then sendSync t True (BlockNumberU64 blk) (BlockNumberU64 (last blocks)) s2
               else s2"
    have f3: "filter ?P (trace ?s3) = filter ?P (trace s0) @ ?one (counter, blk)"
      using f2 sink by (simp add: filter_sendSync)
    from Cons.prems hook add consider
        (hook) "s' = s1" "\<exists>e. r = Inl e"
      | (add) "s' = s2" "\<exists>e. r = Inl e"
      | (rec) "commitBlocks t bc blocks (Suc counter) (IHeader blk) rest ?s3 = (r, s')"
      by (auto simp: Let_def split: option.splits if_splits)
    then show ?case
    proof cases
      case hook
      with f1 show ?thesis by (intro exI [of _ "[]"]) auto
    next
      case add
      with f2 show ?thesis by (intro exI [of _ "[CallAddBlock blk]"]) auto
    next
      case rec
      from Cons.IH [OF rec] obtain cs where
        cs: "filter ?P (trace s') = filter ?P (trace ?s3) @ cs"
        and pre: "prefix cs (concat (map ?one (enumerate (Suc counter) rest)))"
        and full: "\<forall>a. r = Inr a \<longrightarrow> cs = concat (map ?one (enumerate (Suc counter) rest))"
        by blast
      have "filter ?P (trace s') = filter ?P (trace s0) @ (?one (counter, blk) @ cs)"
        using cs f3 by simp
      moreover have "prefix (?one (counter, blk) @ cs)
          (concat (map ?one (enumerate counter (blk # rest))))"
        using pre by simp
      moreover have "\<forall>a. r = Inr a \<longrightarrow>
          ?one (counter, blk) @ cs = concat (map ?one (enumerate counter (blk # rest)))"
        using full by simp
      ultimately show ?thesis by blast
    qed
  qed
  from gen [OF run] show ?thesis .
qed

text \<open>
  A response with the 100 blocks from height 6 to height 105: the loop runs to its end and
  sends one event, after the last block.
\<close>

theorem commitBlocks_progress_events_witness:
  "send (sampleTask 100 (sampleHeader 5) []) = Some (\<lambda>v w. (1, w)) \<and>
   fst (commitBlocks (sampleTask 100 (sampleHeader 5) []) (sampleChain [])
          (map (\<lambda>h. sampleBlock (NumberU64 h)) (sampleHeaders 6 100)) 0 None
          (map (\<lambda>h. sampleBlock (NumberU64 h)) (sampleHeaders 6 100)) (sampleState 5))
     = Inr (Some (sampleHeader 105)) \<and>
   filter isSend
     (trace (snd (commitBlocks (sampleTask 100 (sampleHeader 5) []) (sampleChain [])
          (map (\<lambda>h. sampleBlock (NumberU64 h)) (sampleHeaders 6 100)) 0 None
          (map (\<lambda>h. sampleBlock (NumberU64 h)) (sampleHeaders 6 100)) (sampleState 5))))
     = [CallSend \<lparr>Syncing = True, Status = \<lparr>CurrentBlock = 105, HighestBlock = 105\<rparr>\<rparr>]"
proof -
  let ?t = "sampleTask 100 (sampleHeader 5) [] :: iheader task"
  let ?B = "map (\<lambda>h. sampleBlock (NumberU64 h)) (sampleHeaders 6 100)"
  let ?run = "commitBlocks ?t (sampleChain []) ?B 0 None ?B (sampleState 5)"
  let ?P = "\<lambda>c. isAddBlock c \<or> isSend c"
  let ?expected = "concat (map (\<lambda>(i, blk). CallAddBlock blk #
                    (if Suc i mod 100 = 0
                     then [CallSend \<lparr>Syncing = True,
                             Status = \<lparr>CurrentBlock = BlockNumberU64 blk,
                                        HighestBlock = BlockNumberU64 (last ?B)\<rparr>\<rparr>]
                     else [])) (enumerate 0 ?B))"
  have sink: "send ?t = Some (\<lambda>v w. (1, w))"
    by (simp add: sample_defs)
  have res: "fst ?run = Inr (Some (sampleHeader 105))"
    by code_simp
  then have run: "?run = (Inr (Some (sampleHeader 105)), snd ?run)"
    by (metis prod.collapse)
  have ev: "filter isSend ?expected
     = [CallSend \<lparr>Syncing = True, Status = \<lparr>CurrentBlock = 105, HighestBlock = 105\<rparr>\<rparr>]"
    by code_simp
  from commitBlocks_progress_events [OF sink run]
  have "filter ?P (trace (snd ?run)) = filter ?P (trace (sampleState 5)) @ ?expected"
    by blast
  then have "filter ?P (trace (snd ?run)) = ?expected"
    by (simp add: sampleState_def)
  then have "filter isSend (filter ?P (trace (snd ?run))) = filter isSend ?expected"
    by simp
  moreover have "filter isSend (filter ?P (trace (snd ?run))) = filter isSend (trace (snd ?run))"
    by (rule filter_isSend_calls)
  ultimately have "filter isSend (trace (snd ?run))
     = [CallSend \<lparr>Syncing = True, Status = \<lparr>CurrentBlock = 105, HighestBlock = 105\<rparr>\<rparr>]"
    using ev by simp
  with sink res show ?thesis by blast
qed

text \<open>
  C4 as stated fails twice. With block fetches of 50, the 100 blocks of one header batch
  are committed and no intermediate event is sent. With block fetches of 100 and a batch
  of the 101 headers from height 6 to height 106, the event after the 100th block has the
  height 105 of the last block of the response as its highest height, not the height 106
  of the last header of the batch.
\<close>

theorem Run_progress_events_counterexample:
  "map_option (\<lambda>(out, s). (out, filter isSend (trace s), length (filter isAddBlock (trace s))))
     (Run (sampleTask 50 (sampleHeader 5) (sampleHeaders 6 100)) (sampleChain []) 5
        (sampleState 5))
   = Some (Ret None,
       [CallSend \<lparr>Syncing = False, Status = \<lparr>CurrentBlock = 5, HighestBlock = 200\<rparr>\<rparr>],
       100) \<and>
   map_option (\<lambda>(out, s). (out, filter isSend (trace s), length (filter isAddBlock (trace s))))
     (Run (sampleTask 100 (sampleHeader 5) (sampleHeaders 6 101)) (sampleChain []) 5
        (sampleState 5))
   = Some (Ret None,
       [CallSend \<lparr>Syncing = False, Status = \<lparr>CurrentBlock = 5, HighestBlock = 200\<rparr>\<rparr>,
        CallSend \<lparr>Syncing = True, Status = \<lparr>CurrentBlock = 105, HighestBlock = 105\<rparr>\<rparr>],
       101) \<and>
   NumberU64 (last (sampleHeaders 6 101)) = 106"
  by code_simp

subsection \<open>Block responses\<close>

lemma commitBlocks_adds:
  "commitBlocks t bc blocks counter ancestor rest s = (Inr a, s') \<Longrightarrow>
   filter isAddBlock (trace s') = filter isAddBlock (trace s) @ map CallAddBlock rest"
proof (induction rest arbitrary: counter ancestor s)
  case Nil
  then show ?case by simp
next
  case (Cons blk rest)
  obtain e1 s1 where hook: "(case syncBlock t of None \<Rightarrow> (None, s)
            | Some f \<Rightarrow> invoke (CallSyncBlock blk) (f blk) s) = (e1, s1)"
    by (cases "(case syncBlock t of None \<Rightarrow> (None, s)
            | Some f \<Rightarrow> invoke (CallSyncBlock blk) (f blk) s)")
  then have f1: "filter isAddBlock (trace s1) = filter isAddBlock (trace s)"
    by (auto split: option.splits dest: invoke_trace)
  obtain e2 s2 where add: "invoke (CallAddBlock blk) (AddBlock bc blk) s1 = (e2, s2)"
    by (cases "invoke (CallAddBlock blk) (AddBlock bc blk) s1")
  have f2: "filter isAddBlock (trace s2) = filter isAddBlock (trace s) @ [CallAddBlock blk]"
    using invoke_trace [OF add] f1 by simp
  let ?s3 = "if Suc counter mod 100 = 0
             then sendSync t True (BlockNumberU64 blk) (BlockNumberU64 (last blocks)) s2 else s2"
  have f3: "filter isAddBlock (trace ?s3) = filter isAddBlock (trace s) @ [CallAddBlock blk]"
    using f2 by (simp add: sendSync_trace split: option.splits)
  from Cons.prems hook add
  have rec: "commitBlocks t bc blocks (Suc counter) (IHeader blk) rest ?s3 = (Inr a, s')"
    by (auto simp: Let_def split: option.splits if_splits)
  from Cons.IH [OF rec] f3 show ?case by simp
qed

text \<open>
  C5. One iteration of the inner loop, for a hash list that is not empty and a batch size
  that is not negative: \<open>chunk\<close> is the slice of hashes that the iteration requests, and
  the block fetcher answers with \<open>blocks\<close> and no error. When the number of blocks differs
  from the number of hashes of the chunk, \<^verbatim>\<open>Run\<close> ends with a protocol violation, in the
  state that the block fetcher left: no hook and no \<^verbatim>\<open>AddBlock\<close> was called. When the
  numbers agree, the loop over the blocks runs on the whole response; its error ends
  \<^verbatim>\<open>Run\<close>, and when it runs to its end \<^verbatim>\<open>AddBlock\<close> was called for every block of the
  response, in order, and the inner loop goes on with the hashes that are left.
\<close>

theorem innerLoop_block_count:
  assumes ne: "hashlist = h # hs"
    and nonneg: "0 \<le> batchSize t"
    and chunk: "chunk = (if int (length hashlist) > batchSize t
                         then take (nat (batchSize t)) hashlist else hashlist)"
    and fetch: "invoke (CallGetBlocks chunk) (getBlocks t chunk) s = ((blocks, None), s1)"
  shows "trace s1 = trace s @ [CallGetBlocks chunk] \<and>
         (length blocks \<noteq> length chunk \<longrightarrow>
            (\<exists>e. innerLoop (Suc n) t bc hashlist ancestor s = Some (Inl (Ret (Some e)), s1) \<and>
                 isProtocolViolation e)) \<and>
         (length blocks = length chunk \<longrightarrow>
            innerLoop (Suc n) t bc hashlist ancestor s =
              (case commitBlocks t bc blocks 0 ancestor blocks s1 of
                 (Inl e, s2) \<Rightarrow> Some (Inl (Ret (Some e)), s2)
               | (Inr ancestor', s2) \<Rightarrow>
                   innerLoop n t bc (drop (length chunk) hashlist) ancestor' s2) \<and>
            (\<forall>a s2. commitBlocks t bc blocks 0 ancestor blocks s1 = (Inr a, s2) \<longrightarrow>
               filter isAddBlock (trace s2) = filter isAddBlock (trace s1) @ map CallAddBlock blocks))"
proof (intro conjI impI allI)
  show "trace s1 = trace s @ [CallGetBlocks chunk]"
    by (rule invoke_trace [OF fetch])
next
  assume bad: "length blocks \<noteq> length chunk"
  show "\<exists>e. innerLoop (Suc n) t bc hashlist ancestor s = Some (Inl (Ret (Some e)), s1) \<and>
            isProtocolViolation e"
  proof (cases "int (length hashlist) > batchSize t")
    case True
    with chunk nonneg have len: "int (length chunk) = batchSize t" by auto
    with bad have "int (length blocks) \<noteq> batchSize t" by auto
    with True nonneg chunk fetch
    have "fetchChunk t hashlist s
            = (Inl (Ret (Some (ErrUnmatchedLength1 (batchSize t) (length blocks)))), s1)"
      by (simp add: fetchChunk_def)
    with ne show ?thesis by simp
  next
    case False
    with chunk have "chunk = hashlist" by simp
    with False bad fetch
    have "fetchChunk t hashlist s
            = (Inl (Ret (Some (ErrUnmatchedLength2 (length hashlist) (length blocks)
                                 (hd hashlist)))), s1)"
      by (simp add: fetchChunk_def)
    with ne show ?thesis by simp
  qed
next
  assume ok: "length blocks = length chunk"
  have "fetchChunk t hashlist s = (Inr (blocks, drop (length chunk) hashlist), s1)"
  proof (cases "int (length hashlist) > batchSize t")
    case True
    with chunk nonneg have len: "length chunk = nat (batchSize t)" by auto
    with ok nonneg have "int (length blocks) = batchSize t" by simp
    with True nonneg chunk fetch len show ?thesis
      by (simp add: fetchChunk_def)
  next
    case False
    with chunk have "chunk = hashlist" by simp
    with False ok fetch show ?thesis
      by (simp add: fetchChunk_def)
  qed
  then have "fetchChunk t (h # hs) s = (Inr (blocks, drop (length chunk) (h # hs)), s1)"
    by (simp add: ne)
  then show "innerLoop (Suc n) t bc hashlist ancestor s =
              (case commitBlocks t bc blocks 0 ancestor blocks s1 of
                 (Inl e, s2) \<Rightarrow> Some (Inl (Ret (Some e)), s2)
               | (Inr ancestor', s2) \<Rightarrow>
                   innerLoop n t bc (drop (length chunk) hashlist) ancestor' s2)"
    unfolding ne by simp
next
  fix a s2
  assume "commitBlocks t bc blocks 0 ancestor blocks s1 = (Inr a, s2)"
  then show "filter isAddBlock (trace s2) = filter isAddBlock (trace s1) @ map CallAddBlock blocks"
    by (rule commitBlocks_adds)
qed


text \<open>
  Block fetches of 2 for the hashes 6, 7, 8: a peer that answers with one block, and a
  peer that answers with the blocks asked for.
\<close>

theorem innerLoop_block_count_witness:
  "invoke (CallGetBlocks [6, 7])
       (getBlocks ((sampleTask 2 (sampleHeader 5) [])
                     \<lparr>getBlocks := (\<lambda>hashes w. (([sampleBlock 6], None), w))\<rparr>) [6, 7])
       (sampleState 5)
     = (([sampleBlock 6], None), \<lparr>world = sampleHeader 5, trace = [CallGetBlocks [6, 7]]\<rparr>) \<and>
   innerLoop (Suc 2) ((sampleTask 2 (sampleHeader 5) [])
                     \<lparr>getBlocks := (\<lambda>hashes w. (([sampleBlock 6], None), w))\<rparr>)
       (sampleChain []) [6, 7, 8] (Some (sampleHeader 5)) (sampleState 5)
     = Some (Inl (Ret (Some (ErrUnmatchedLength1 2 1))),
             \<lparr>world = sampleHeader 5, trace = [CallGetBlocks [6, 7]]\<rparr>) \<and>
   invoke (CallGetBlocks [6, 7]) (getBlocks (sampleTask 2 (sampleHeader 5) []) [6, 7])
       (sampleState 5)
     = (([sampleBlock 6, sampleBlock 7], None),
        \<lparr>world = sampleHeader 5, trace = [CallGetBlocks [6, 7]]\<rparr>) \<and>
   commitBlocks (sampleTask 2 (sampleHeader 5) []) (sampleChain [])
       [sampleBlock 6, sampleBlock 7] 0 (Some (sampleHeader 5)) [sampleBlock 6, sampleBlock 7]
       \<lparr>world = sampleHeader 5, trace = [CallGetBlocks [6, 7]]\<rparr>
     = (Inr (Some (sampleHeader 7)),
        \<lparr>world = sampleHeader 7,
         trace = [CallGetBlocks [6, 7], CallAddBlock (sampleBlock 6),
                  CallAddBlock (sampleBlock 7)]\<rparr>) \<and>
   filter isAddBlock [CallGetBlocks [6, 7], CallAddBlock (sampleBlock 6),
                      CallAddBlock (sampleBlock 7)]
     = filter isAddBlock [CallGetBlocks [6, 7]]
       @ map CallAddBlock [sampleBlock 6, sampleBlock 7] \<and>
   innerLoop (Suc 2) (sampleTask 2 (sampleHeader 5) []) (sampleChain []) [6, 7, 8]
       (Some (sampleHeader 5)) (sampleState 5)
     = innerLoop 2 (sampleTask 2 (sampleHeader 5) []) (sampleChain []) [8]
         (Some (sampleHeader 7))
         \<lparr>world = sampleHeader 7,
          trace = [CallGetBlocks [6, 7], CallAddBlock (sampleBlock 6),
                   CallAddBlock (sampleBlock 7)]\<rparr>"
proof -
  let ?short = "(sampleTask 2 (sampleHeader 5) [])
                  \<lparr>getBlocks := (\<lambda>hashes w. (([sampleBlock 6], None), w))\<rparr>"
  let ?t = "sampleTask 2 (sampleHeader 5) [] :: iheader task"
  let ?s1 = "\<lparr>world = sampleHeader 5, trace = [CallGetBlocks [6, 7]]\<rparr>"
  let ?s2 = "\<lparr>world = sampleHeader 7,
         trace = [CallGetBlocks [6, 7], CallAddBlock (sampleBlock 6),
                  CallAddBlock (sampleBlock 7)]\<rparr>"
  have ne: "[6, 7, 8] = (6 :: hash) # [7, 8]" by simp
  have bs1: "0 \<le> batchSize ?short" and bs2: "0 \<le> batchSize ?t"
    by (simp_all add: sample_defs)
  have ch1: "[6, 7] = (if int (length [6, 7, 8 :: hash]) > batchSize ?short
                       then take (nat (batchSize ?short)) [6, 7, 8] else [6, 7, 8])"
    and ch2: "[6, 7] = (if int (length [6, 7, 8 :: hash]) > batchSize ?t
                       then take (nat (batchSize ?t)) [6, 7, 8] else [6, 7, 8])"
    by (simp_all add: sample_defs)
  have f1: "invoke (CallGetBlocks [6, 7]) (getBlocks ?short [6, 7]) (sampleState 5)
     = (([sampleBlock 6], None), ?s1)"
    by (simp add: sample_defs invoke_def)
  have f2: "invoke (CallGetBlocks [6, 7]) (getBlocks ?t [6, 7]) (sampleState 5)
     = (([sampleBlock 6, sampleBlock 7], None), ?s1)"
    by (simp add: sample_defs invoke_def)
  from innerLoop_block_count [OF ne bs1 ch1 f1, of 2 "sampleChain []" "Some (sampleHeader 5)"]
  obtain e where "innerLoop (Suc 2) ?short (sampleChain []) [6, 7, 8] (Some (sampleHeader 5))
        (sampleState 5) = Some (Inl (Ret (Some e)), ?s1)"
    by auto
  moreover have "innerLoop (Suc 2) ?short (sampleChain []) [6, 7, 8] (Some (sampleHeader 5))
        (sampleState 5) = Some (Inl (Ret (Some (ErrUnmatchedLength1 2 1))), ?s1)"
    by code_simp
  ultimately have r1: "innerLoop (Suc 2) ?short (sampleChain []) [6, 7, 8] (Some (sampleHeader 5))
        (sampleState 5) = Some (Inl (Ret (Some (ErrUnmatchedLength1 2 1))), ?s1)"
    by simp
  have cb: "commitBlocks ?t (sampleChain []) [sampleBlock 6, sampleBlock 7] 0
       (Some (sampleHeader 5)) [sampleBlock 6, sampleBlock 7] ?s1
     = (Inr (Some (sampleHeader 7)), ?s2)"
    by code_simp
  note inst = innerLoop_block_count [OF ne bs2 ch2 f2, of 2 "sampleChain []" "Some (sampleHeader 5)"]
  have len: "length [sampleBlock 6, sampleBlock 7] = length [6, 7 :: hash]"
    by simp
  from inst len cb have adds: "filter isAddBlock (trace ?s2)
     = filter isAddBlock (trace ?s1) @ map CallAddBlock [sampleBlock 6, sampleBlock 7]"
    by blast
  from inst len
  have "innerLoop (Suc 2) ?t (sampleChain []) [6, 7, 8] (Some (sampleHeader 5)) (sampleState 5) =
      (case commitBlocks ?t (sampleChain []) [sampleBlock 6, sampleBlock 7] 0
              (Some (sampleHeader 5)) [sampleBlock 6, sampleBlock 7] ?s1 of
         (Inl e, s2) \<Rightarrow> Some (Inl (Ret (Some e)), s2)
       | (Inr ancestor', s2) \<Rightarrow>
           innerLoop 2 ?t (sampleChain []) (drop (length [6, 7 :: hash]) [6, 7, 8]) ancestor' s2)"
    by blast
  then have r2: "innerLoop (Suc 2) ?t (sampleChain []) [6, 7, 8] (Some (sampleHeader 5))
        (sampleState 5) = innerLoop 2 ?t (sampleChain []) [8] (Some (sampleHeader 7)) ?s2"
    unfolding cb by simp
  from f1 r1 f2 cb adds r2 show ?thesis by simp
qed

subsection \<open>The start event and the end event\<close>

text \<open>
  C2. A shard task with a sink, head 5, target 200, and a peer that has the headers 6 and
  7: the first call of \<^verbatim>\<open>Run\<close> is the start event, with the head's height 5 and the
  target's height 200, and with \<^verbatim>\<open>Syncing = false\<close>, as line 52 passes it.
\<close>

theorem Run_start_event:
  "Run (sampleTask 10 (sampleHeader 5) (sampleHeaders 6 2)) (sampleChain []) 5 (sampleState 5) =
     Some (Ret None,
       \<lparr>world = sampleHeader 7,
        trace =
          [CallSend \<lparr>Syncing = False, Status = \<lparr>CurrentBlock = 5, HighestBlock = 200\<rparr>\<rparr>,
           CallFindAncestor,
           CallGetHeaders (sampleHeader 5),
           CallValidateSeal (sampleHeader 6) False,
           CallValidateSeal (sampleHeader 7) False,
           CallGetBlocks [6, 7],
           CallAddBlock (sampleBlock 6),
           CallAddBlock (sampleBlock 7),
           CallGetHeaders (sampleHeader 7)]\<rparr>)"
  by code_simp

text \<open>
  C3. The same task on a peer that answers the header request with the empty batch:
  \<^verbatim>\<open>Run\<close> returns nil from line 72, and the header request is its last call. No end event
  is sent.
\<close>

theorem Run_empty_batch:
  "Run (sampleTask 10 (sampleHeader 5) []) (sampleChain []) 5 (sampleState 5) =
     Some (Ret None,
       \<lparr>world = sampleHeader 5,
        trace =
          [CallSend \<lparr>Syncing = False, Status = \<lparr>CurrentBlock = 5, HighestBlock = 200\<rparr>\<rparr>,
           CallFindAncestor,
           CallGetHeaders (sampleHeader 5)]\<rparr>)"
  by code_simp

end
